theory Spec2Isabelle
  imports Complex_Main "HOL-Library.AList"
begin

section \<open>Data model\<close>

text \<open>
  The detector (\<^verbatim>\<open>airspace_vertex_detector.py\<close>) and the preprocessor
  (\<^verbatim>\<open>chart_preprocessing.py\<close>) are embedded as pure functions over explicit state.
  Conventions of the embedding:
  \<^item> Python \<^verbatim>\<open>int\<close> is \<open>int\<close> (or \<open>nat\<close> for indices and lengths). A Python
    \<^verbatim>\<open>float\<close> is the real number it denotes. In the detector and in
    \<open>map_pixel_to_latlon\<close> the arithmetic on floats is exact (rounding is left out);
    \<open>map_pixel_to_latlon_float\<close> is the same method with every operation rounded to
    a double.
  \<^item> A Python \<^verbatim>\<open>dict\<close> is an association list with distinct keys in insertion
    order; \<^verbatim>\<open>d[k] = v\<close> is \<open>AList.update k v d\<close> (replace in place, else append).
  \<^item> The OpenCV library is not part of the repository. Its functions are parameters
    of the model, collected in the records \<open>cv2_geometry\<close> and \<open>cv2_imaging\<close>.
  \<^item> Printing and file output are not modelled.
\<close>

type_synonym point = "int \<times> int"
type_synonym contour = "point list"

text \<open>
  The OpenCV functions called on contours. \<open>arcLength c\<close> stands for
  \<^verbatim>\<open>cv2.arcLength(c, True)\<close> and \<open>approxPolyDP c eps\<close> for
  \<^verbatim>\<open>cv2.approxPolyDP(c, eps, True)\<close>.
\<close>

record cv2_geometry =
  arcLength :: "contour \<Rightarrow> real"
  approxPolyDP :: "contour \<Rightarrow> real \<Rightarrow> contour"
  contourArea :: "contour \<Rightarrow> real"
  boundingRect :: "contour \<Rightarrow> int \<times> int \<times> int \<times> int"


record bounding_box =
  box_x :: int
  box_y :: int
  box_width :: int
  box_height :: int

text \<open>The dictionary \<^verbatim>\<open>polygon_data\<close>; the key \<^verbatim>\<open>"id"\<close> is the field \<open>id_field\<close>.\<close>

record polygon =
  id_field :: nat
  vertices :: "point list"
  num_vertices :: nat
  area :: real
  perimeter :: real
  bounding_box :: bounding_box
  centroid :: "real \<times> real"

text \<open>The attributes of \<^verbatim>\<open>AirspaceVertexDetector\<close> that the modelled methods touch.\<close>

record 'img detector =
  image_path :: "string option"
  original_image :: "'img option"
  airspace_polygons :: "(string \<times> contour list) list"
  vertex_data :: "(string \<times> polygon list) list"

datatype py_error = ZeroDivisionError | CvError

section \<open>Vertex extraction\<close>

text \<open>\<^verbatim>\<open>_calculate_centroid\<close>: \<open>(0, 0)\<close> for the empty list, else the mean of the coordinates.\<close>

definition calculate_centroid :: "point list \<Rightarrow> real \<times> real" where
  "calculate_centroid vs =
     (if vs = [] then (0, 0)
      else
        (let x_coords = map fst vs;
             y_coords = map snd vs;
             centroid_x = real_of_int (sum_list x_coords) / real (length x_coords);
             centroid_y = real_of_int (sum_list y_coords) / real (length y_coords)
         in (centroid_x, centroid_y)))"

text \<open>
  The body of the \<^verbatim>\<open>if len(approx_polygon) >= min_vertices\<close> branch: the record built
  for contour number \<open>i\<close> (0-based) from the contour and its approximation.
\<close>

definition polygon_data :: "cv2_geometry \<Rightarrow> nat \<Rightarrow> contour \<Rightarrow> contour \<Rightarrow> polygon" where
  "polygon_data cv i c approx_polygon =
     (let vs = map (\<lambda>pt. (fst pt, snd pt)) approx_polygon;
          a = contourArea cv c;
          per = arcLength cv c;
          bounding_rect = boundingRect cv c
      in \<lparr> id_field = i + 1,
           vertices = vs,
           num_vertices = length vs,
           area = a,
           perimeter = per,
           bounding_box =
             (case bounding_rect of
                (rx, ry, rw, rh) \<Rightarrow> \<lparr> box_x = rx, box_y = ry, box_width = rw, box_height = rh \<rparr>),
           centroid = calculate_centroid vs \<rparr>)"

text \<open>
  Lines 130-131: the tolerance is \<^verbatim>\<open>epsilon_factor\<close> times the closed arc length of the
  contour itself, and the contour is approximated with that tolerance.
\<close>

definition approx_polygon_of :: "cv2_geometry \<Rightarrow> real \<Rightarrow> contour \<Rightarrow> contour" where
  "approx_polygon_of cv epsilon_factor c =
     (let epsilon = epsilon_factor * arcLength cv c
      in approxPolyDP cv c epsilon)"

text \<open>
  The loop \<^verbatim>\<open>for i, contour in enumerate(contours)\<close>, from index \<open>i\<close> on; the result
  is the list \<^verbatim>\<open>polygons\<close> in the order of the appends.
\<close>

fun polygons_loop :: "cv2_geometry \<Rightarrow> real \<Rightarrow> int \<Rightarrow> nat \<Rightarrow> contour list \<Rightarrow> polygon list" where
  "polygons_loop cv epsilon_factor min_vertices i [] = []"
| "polygons_loop cv epsilon_factor min_vertices i (c # rest) =
     (let approx_polygon = approx_polygon_of cv epsilon_factor c
      in if int (length approx_polygon) \<ge> min_vertices
         then polygon_data cv i c approx_polygon
                # polygons_loop cv epsilon_factor min_vertices (i + 1) rest
         else polygons_loop cv epsilon_factor min_vertices (i + 1) rest)"

text \<open>
  The loop \<^verbatim>\<open>for airspace_type, contours in self.airspace_polygons.items()\<close>, threading
  the dictionary \<^verbatim>\<open>self.vertex_data\<close>.
\<close>

fun extract_loop ::
  "cv2_geometry \<Rightarrow> real \<Rightarrow> int \<Rightarrow> (string \<times> contour list) list \<Rightarrow>
   (string \<times> polygon list) list \<Rightarrow> (string \<times> polygon list) list" where
  "extract_loop cv epsilon_factor min_vertices [] vd = vd"
| "extract_loop cv epsilon_factor min_vertices ((airspace_type, contours) # rest) vd =
     (if contours = [] then extract_loop cv epsilon_factor min_vertices rest vd
      else extract_loop cv epsilon_factor min_vertices rest
             (AList.update airspace_type
                (polygons_loop cv epsilon_factor min_vertices 0 contours) vd))"

definition extract_polygon_vertices ::
  "cv2_geometry \<Rightarrow> real \<Rightarrow> int \<Rightarrow> 'img detector \<Rightarrow> 'img detector" where
  "extract_polygon_vertices cv epsilon_factor min_vertices self =
     self\<lparr> vertex_data :=
       extract_loop cv epsilon_factor min_vertices (airspace_polygons self) [] \<rparr>"

text \<open>The default arguments \<^verbatim>\<open>epsilon_factor=0.02\<close> and \<^verbatim>\<open>min_vertices=3\<close>.\<close>

definition default_epsilon_factor :: real where
  "default_epsilon_factor = 0.02"

definition default_min_vertices :: int where
  "default_min_vertices = 3"

section \<open>Detection of contours\<close>







section \<open>Pixel to latitude/longitude\<close>

record chart_bounds =
  north :: real
  south :: real
  east :: real
  west :: real

text \<open>
  \<^verbatim>\<open>map_pixel_to_latlon\<close>; \<open>height\<close> and \<open>width\<close> are
  \<^verbatim>\<open>self.original_image.shape[:2]\<close>. The two divisions raise on a zero divisor.
\<close>

definition map_pixel_to_latlon ::
  "nat \<Rightarrow> nat \<Rightarrow> (int \<times> int) list \<Rightarrow> chart_bounds \<Rightarrow> py_error + (real \<times> real) list" where
  "map_pixel_to_latlon height width pixel_coords cb =
     (let lat_range = north cb - south cb;
          lon_range = east cb - west cb
      in if height = 0 then Inl ZeroDivisionError
         else if width = 0 then Inl ZeroDivisionError
         else
           (let lat_scale = lat_range / real height;
                lon_scale = lon_range / real width
            in Inr (map (\<lambda>(x, y).
                           (north cb - (real_of_int y * lat_scale),
                            west cb + (real_of_int x * lon_scale)))
                        pixel_coords)))"

section \<open>Double-precision arithmetic\<close>

text \<open>
  A finite Python \<^verbatim>\<open>float\<close> is an IEEE 754 binary64 number. Every arithmetic operation
  returns the exact result rounded to the nearest double, ties to the even significand,
  with 53 significant bits and gradual underflow below \<open>2\<^sup>-\<^sup>1\<^sup>0\<^sup>2\<^sup>2\<close>. Infinities and
  NaN are not represented: the statements about rounded results carry bounds under which
  no operation overflows.
\<close>

text \<open>The binary exponent \<open>e\<close> of a positive number: \<open>2\<^sup>e \<le> x < 2\<^sup>e\<^sup>+\<^sup>1\<close>.\<close>

function binade :: "real \<Rightarrow> int" where
  "binade x =
     (if x \<le> 0 then 0
      else if 2 \<le> x then binade (x / 2) + 1
      else if x < 1 then binade (x * 2) - 1
      else 0)"
  by pat_completeness auto
termination
proof (relation "measure (\<lambda>x. if 1 \<le> x then nat \<lfloor>x\<rfloor> else nat \<lceil>1 / x\<rceil>)")
  show "wf (measure (\<lambda>x::real. if 1 \<le> x then nat \<lfloor>x\<rfloor> else nat \<lceil>1 / x\<rceil>))" by simp
  show "(x / 2, x) \<in> measure (\<lambda>x. if 1 \<le> x then nat \<lfloor>x\<rfloor> else nat \<lceil>1 / x\<rceil>)"
    if "\<not> x \<le> 0" and "2 \<le> x" for x :: real
  proof -
    have "x / 2 \<le> x - 1" using that by simp
    then have "\<lfloor>x / 2\<rfloor> \<le> \<lfloor>x - 1\<rfloor>" by (rule floor_mono)
    then have "\<lfloor>x / 2\<rfloor> < \<lfloor>x\<rfloor>" by simp
    moreover have "0 < \<lfloor>x\<rfloor>" using that by simp
    ultimately show ?thesis using that by simp
  qed
  show "(x * 2, x) \<in> measure (\<lambda>x. if 1 \<le> x then nat \<lfloor>x\<rfloor> else nat \<lceil>1 / x\<rceil>)"
    if "\<not> x \<le> 0" and "\<not> 2 \<le> x" and "x < 1" for x :: real
  proof (cases "1 \<le> x * 2")
    case True
    have "1 < 1 / x" using that by simp
    then have "1 < \<lceil>1 / x\<rceil>" by (simp add: less_ceiling_iff)
    moreover have "\<lfloor>x * 2\<rfloor> = 1" using True that by (simp add: floor_eq_iff)
    ultimately show ?thesis using True that by simp
  next
    case False
    have "2 \<le> 1 / x" using False that by (simp add: pos_le_divide_eq)
    then have "1 / x / 2 \<le> 1 / x - 1" by simp
    then have "\<lceil>1 / x / 2\<rceil> \<le> \<lceil>1 / x - 1\<rceil>" by (rule ceiling_mono)
    then have "\<lceil>1 / (x * 2)\<rceil> < \<lceil>1 / x\<rceil>" by simp
    moreover have "0 < \<lceil>1 / x\<rceil>" using that by simp
    ultimately show ?thesis using False that by simp
  qed
qed

declare binade.simps [simp del]

text \<open>The power of two with an integer exponent.\<close>

definition pow2 :: "int \<Rightarrow> real" where
  "pow2 e = (if 0 \<le> e then 2 ^ nat e else 1 / 2 ^ nat (- e))"

text \<open>Rounding to the nearest integer, ties to even.\<close>

definition round_half_even :: "real \<Rightarrow> int" where
  "round_half_even x =
     (let f = \<lfloor>x\<rfloor>; r = x - real_of_int f
      in if r < 1 / 2 then f
         else if 1 / 2 < r then f + 1
         else if even f then f else f + 1)"

text \<open>
  The double nearest to a real number: the unit in the last place is
  \<open>2\<^sup>e\<^sup>-\<^sup>5\<^sup>2\<close> for the exponent \<open>e\<close> of the number, and \<open>2\<^sup>-\<^sup>1\<^sup>0\<^sup>7\<^sup>4\<close> in the subnormal range.
\<close>

definition to_double :: "real \<Rightarrow> real" where
  "to_double x =
     (let e = max (binade \<bar>x\<bar>) (- 1022) - 52
      in real_of_int (round_half_even (x / pow2 e)) * pow2 e)"


definition is_double :: "real \<Rightarrow> bool" where
  "is_double x = (to_double x = x)"

text \<open>
  \<^verbatim>\<open>map_pixel_to_latlon\<close> in double arithmetic: the subtractions, the divisions by the
  image height and width (converted to floats), the products with the pixel coordinates
  (converted to floats) and the final subtraction and addition are each rounded.
\<close>

definition map_pixel_to_latlon_float ::
  "nat \<Rightarrow> nat \<Rightarrow> (int \<times> int) list \<Rightarrow> chart_bounds \<Rightarrow> py_error + (real \<times> real) list" where
  "map_pixel_to_latlon_float height width pixel_coords cb =
     (let lat_range = to_double (north cb - south cb);
          lon_range = to_double (east cb - west cb)
      in if height = 0 then Inl ZeroDivisionError
         else if width = 0 then Inl ZeroDivisionError
         else
           (let lat_scale = to_double (lat_range / to_double (real height));
                lon_scale = to_double (lon_range / to_double (real width))
            in Inr (map (\<lambda>(x, y).
                           (to_double (north cb - to_double (to_double (real_of_int y) * lat_scale)),
                            to_double (west cb + to_double (to_double (real_of_int x) * lon_scale))))
                        pixel_coords)))"

text \<open>
  Chart bounds that are doubles, with latitudes within 90 and longitudes within 180
  degrees.
\<close>

definition geographic :: "chart_bounds \<Rightarrow> bool" where
  "geographic cb =
     (is_double (north cb) \<and> is_double (south cb) \<and> is_double (east cb) \<and> is_double (west cb) \<and>
      \<bar>north cb\<bar> \<le> 90 \<and> \<bar>south cb\<bar> \<le> 90 \<and> \<bar>east cb\<bar> \<le> 180 \<and> \<bar>west cb\<bar> \<le> 180)"

section \<open>The OpenCV contour functions, after the specification\<close>

text \<open>
  The library functions are not in the repository. Where a statement needs concrete
  library behaviour, namely the evaluation at an explicit example contour, the following
  definitions are used; they follow the specification's description of each function on
  integer pixel coordinates. No general property of the library is derived from them.
\<close>

text \<open>
  Modelled from the spec: the length of a boundary segment between two pixel positions
  (Euclidean distance), as the square root of the squared distance.
\<close>

definition sq_dist :: "point \<Rightarrow> point \<Rightarrow> int" where
  "sq_dist a b = (fst b - fst a)\<^sup>2 + (snd b - snd a)\<^sup>2"

definition seg_len :: "point \<Rightarrow> point \<Rightarrow> real" where
  "seg_len a b = sqrt (real_of_int (sq_dist a b))"

text \<open>Modelled from the spec: the arc length of an open path through the points.\<close>

fun path_len :: "point list \<Rightarrow> real" where
  "path_len (a # b # r) = seg_len a b + path_len (b # r)"
| "path_len _ = 0"

text \<open>
  Modelled from the spec: \<^verbatim>\<open>cv2.arcLength(contour, True)\<close>, "arc length of the original
  contour": the Euclidean length of the closed polyline through the points, that is the
  open path followed by the segment from the last point back to the first.
\<close>

definition arc_length_closed :: "contour \<Rightarrow> real" where
  "arc_length_closed c = (case c of [] \<Rightarrow> 0 | p # ps \<Rightarrow> path_len (p # ps @ [p]))"

text \<open>
  Modelled from the spec: twice the signed area of the triangle \<open>a\<close>, \<open>b\<close>, \<open>p\<close>; its
  absolute value over the length of \<open>a b\<close> is the distance of \<open>p\<close> from the line.
\<close>

definition cross :: "point \<Rightarrow> point \<Rightarrow> point \<Rightarrow> int" where
  "cross a b p = (fst b - fst a) * (snd p - snd a) - (snd b - snd a) * (fst p - fst a)"

text \<open>
  Modelled from the spec: the "perpendicular deviation" of a boundary point \<open>p\<close> from the
  straight line through \<open>a\<close> and \<open>b\<close>; when the two ends coincide (the closing segment of
  a closed contour) it is the distance from \<open>p\<close> to that point.
\<close>

definition deviation :: "point \<Rightarrow> point \<Rightarrow> point \<Rightarrow> real" where
  "deviation a b p =
     (if a = b then seg_len a p else \<bar>real_of_int (cross a b p)\<bar> / seg_len a b)"

text \<open>
  Modelled from the spec: "the point of maximum deviation". The non-empty list
  \<open>x # xs\<close> is split at the first element where \<open>f\<close> is maximal:
  the elements before it, the element, the elements after it.
\<close>

fun split_first_max :: "('a \<Rightarrow> real) \<Rightarrow> 'a \<Rightarrow> 'a list \<Rightarrow> 'a list \<times> 'a \<times> 'a list" where
  "split_first_max f x [] = ([], x, [])"
| "split_first_max f x (y # ys) =
     (case split_first_max f y ys of
        (pre, m, post) \<Rightarrow> if f m \<le> f x then ([], x, y # ys) else (x # pre, m, post))"

text \<open>
  Modelled from the spec: Ramer-Douglas-Peucker, "recursively replace a boundary segment
  with a straight line if every original point on that segment lies within the tolerance
  distance of the line, else split at the point of maximum deviation and recurse".
  \<open>rdp eps a ms b\<close> is the list of the interior points \<open>ms\<close> that are kept between the
  ends \<open>a\<close> and \<open>b\<close>, in their original order.
\<close>

function rdp :: "real \<Rightarrow> point \<Rightarrow> point list \<Rightarrow> point \<Rightarrow> point list" where
  "rdp eps a [] b = []"
| "rdp eps a (x # xs) b =
     (case split_first_max (deviation a b) x xs of
        (pre, m, post) \<Rightarrow>
          if deviation a b m > eps then rdp eps a pre m @ m # rdp eps m post b else [])"
  by pat_completeness auto
termination
proof (relation "measure (\<lambda>(eps, a, ms, b). length ms)")
  have decomp: "split_first_max f x xs = (pre, m, post) \<Longrightarrow> x # xs = pre @ m # post"
    for f :: "point \<Rightarrow> real" and x xs pre m post
    by (induction xs arbitrary: x pre m post) (auto split: prod.splits if_splits)
  have shorter: "length pre < Suc (length xs) \<and> length post < Suc (length xs)"
    if "(pre, m, post) = split_first_max f x xs"
    for f :: "point \<Rightarrow> real" and x xs pre m post
  proof -
    have "length (x # xs) = length (pre @ m # post)"
      using decomp [of f x xs pre m post] that by simp
    then show ?thesis by simp
  qed
  show "wf (measure (\<lambda>(eps, a, ms, b). length ms))" by simp
  show "((eps, a, pre, m), eps, a, x # xs, b) \<in> measure (\<lambda>(eps, a, ms, b). length ms)"
    if "(pre, z) = split_first_max (deviation a b) x xs" and "(m, post) = z"
    for eps a x xs b pre z m post
    using shorter [of pre m post "deviation a b" x xs] that by simp
  show "((eps, m, post, b), eps, a, x # xs, b) \<in> measure (\<lambda>(eps, a, ms, b). length ms)"
    if "(pre, z) = split_first_max (deviation a b) x xs" and "(m, post) = z"
    for eps a x xs b pre z m post
    using shorter [of pre m post "deviation a b" x xs] that by simp
qed

text \<open>
  Modelled from the spec: \<^verbatim>\<open>cv2.approxPolyDP(contour, epsilon, True)\<close> for a tolerance
  that is not negative. The specification does not say where a closed contour is opened;
  here it is opened at its first point, which is kept, and simplified as the polyline
  that returns to that point. The definition is used only to evaluate the example
  contours below.
\<close>

definition approx_poly_closed :: "contour \<Rightarrow> real \<Rightarrow> contour" where
  "approx_poly_closed c eps = (case c of [] \<Rightarrow> [] | p # ps \<Rightarrow> p # rdp eps p ps p)"

text \<open>
  Modelled from the spec: the sum of the shoelace formula over the consecutive pairs of
  a path.
\<close>

fun cross_sum :: "point list \<Rightarrow> int" where
  "cross_sum (a # b # r) = (fst a * snd b - fst b * snd a) + cross_sum (b # r)"
| "cross_sum _ = 0"

text \<open>
  Modelled from the spec: "signed polygon area via the shoelace formula" over a vertex
  list's closed polygon, and its absolute value, which is what
  \<^verbatim>\<open>cv2.contourArea(contour)\<close> reports.
\<close>

definition signed_area :: "point list \<Rightarrow> real" where
  "signed_area c =
     (case c of [] \<Rightarrow> 0 | p # ps \<Rightarrow> real_of_int (cross_sum (p # ps @ [p])) / 2)"

definition shoelace_area :: "point list \<Rightarrow> real" where
  "shoelace_area c = \<bar>signed_area c\<bar>"

text \<open>
  Modelled from the spec: \<^verbatim>\<open>cv2.boundingRect(contour)\<close>, the "axis-aligned box
  (x, y, width, height)" of the contour; the extents count pixels, so a contour from
  column 0 to column 100 has width 101.
\<close>

definition bounding_rect :: "contour \<Rightarrow> int \<times> int \<times> int \<times> int" where
  "bounding_rect c =
     (case c of
        [] \<Rightarrow> (0, 0, 0, 0)
      | p # ps \<Rightarrow>
          (let x_min = fold min (map fst ps) (fst p);
               x_max = fold max (map fst ps) (fst p);
               y_min = fold min (map snd ps) (snd p);
               y_max = fold max (map snd ps) (snd p)
           in (x_min, y_min, x_max - x_min + 1, y_max - y_min + 1)))"

text \<open>
  Modelled from the spec: the four contour functions of the library, collected as one
  instance of the parameter record.
\<close>

definition cv_spec :: cv2_geometry where
  "cv_spec = \<lparr> arcLength = arc_length_closed, approxPolyDP = approx_poly_closed,
               contourArea = shoelace_area, boundingRect = bounding_rect \<rparr>"

text \<open>
  Modelled from the spec: the "area-weighted polygon centroid" that the specification
  contrasts with the vertex mean (the standard formula over the signed area). It is
  not computed anywhere in the program and serves only for comparison with
  \<open>calculate_centroid\<close>.
\<close>

fun moment_sum :: "(point \<Rightarrow> int) \<Rightarrow> point list \<Rightarrow> int" where
  "moment_sum g (a # b # r) =
     (g a + g b) * (fst a * snd b - fst b * snd a) + moment_sum g (b # r)"
| "moment_sum g _ = 0"

definition area_weighted_centroid :: "point list \<Rightarrow> real \<times> real" where
  "area_weighted_centroid c =
     (case c of
        [] \<Rightarrow> (0, 0)
      | p # ps \<Rightarrow>
          (real_of_int (moment_sum fst (p # ps @ [p])) / (6 * signed_area c),
           real_of_int (moment_sum snd (p # ps @ [p])) / (6 * signed_area c)))"

section \<open>Example inputs\<close>

text \<open>
  A 100 by 100 square with a one-pixel bump on one side, a 1200 by 1 sliver, and a
  40 by 25 rectangle whose area is exactly 1000.
\<close>

definition bump_contour :: contour where
  "bump_contour =
     [(0, 0), (100, 0), (100, 100), (51, 100), (51, 101), (49, 101), (49, 100), (0, 100)]"

definition sliver_contour :: contour where
  "sliver_contour = [(0, 0), (1200, 0), (1200, 1), (0, 1)]"


definition example_detector :: "(string \<times> contour list) list \<Rightarrow> unit detector" where
  "example_detector ap =
     \<lparr> image_path = None, original_image = Some (), airspace_polygons = ap, vertex_data = [] \<rparr>"


text \<open>The record expected for \<open>bump_contour\<close> stored at the 1-based position \<open>i\<close>.\<close>

definition bump_polygon :: "nat \<Rightarrow> polygon" where
  "bump_polygon i =
     \<lparr> id_field = i, vertices = [(0, 0), (100, 0), (100, 100), (0, 100)],
       num_vertices = 4, area = 10002, perimeter = 402,
       bounding_box = \<lparr> box_x = 0, box_y = 0, box_width = 101, box_height = 102 \<rparr>,
       centroid = (50, 50) \<rparr>"

text \<open>An L-shaped hexagon, and chart bounds with north below south and east equal to west.\<close>

definition l_shape :: "point list" where
  "l_shape = [(0, 0), (4, 0), (4, 1), (1, 1), (1, 4), (0, 4)]"

definition degenerate_bounds :: chart_bounds where
  "degenerate_bounds = \<lparr> north = 44, south = 45, east = -1, west = -1 \<rparr>"

text \<open>
  Bounds 1, 0, 1, 0, and the doubles denoted by the literals 45.2, 44.5, -0.3 and -1.0.
\<close>

definition unit_bounds :: chart_bounds where
  "unit_bounds = \<lparr> north = 1, south = 0, east = 1, west = 0 \<rparr>"

definition bordeaux_doubles :: chart_bounds where
  "bordeaux_doubles =
     \<lparr> north = to_double 45.2, south = to_double 44.5,
       east = to_double (- 0.3), west = to_double (- 1.0) \<rparr>"


section \<open>Properties of the loops\<close>

lemma polygons_loop_enumerate:
  "polygons_loop cv ef mv i cs =
     map (\<lambda>(j, c). polygon_data cv j c (approx_polygon_of cv ef c))
       (filter (\<lambda>(j, c). mv \<le> int (length (approx_polygon_of cv ef c))) (enumerate i cs))"
  by (induction cs arbitrary: i) (simp_all add: Let_def)

lemma polygons_loop_member:
  assumes "p \<in> set (polygons_loop cv ef mv i cs)"
  shows "\<exists>j<length cs. mv \<le> int (length (approx_polygon_of cv ef (cs ! j)))
           \<and> p = polygon_data cv (i + j) (cs ! j) (approx_polygon_of cv ef (cs ! j))"
  using assms
proof (induction cs arbitrary: i)
  case Nil
  then show ?case by simp
next
  case (Cons c cs)
  show ?case
  proof (cases "p = polygon_data cv i c (approx_polygon_of cv ef c)
                 \<and> mv \<le> int (length (approx_polygon_of cv ef c))")
    case True
    then have "0 < length (c # cs) \<and> mv \<le> int (length (approx_polygon_of cv ef ((c # cs) ! 0)))
        \<and> p = polygon_data cv (i + 0) ((c # cs) ! 0) (approx_polygon_of cv ef ((c # cs) ! 0))"
      by simp
    then show ?thesis by blast
  next
    case False
    then have "p \<in> set (polygons_loop cv ef mv (i + 1) cs)"
      using Cons.prems by (auto simp: Let_def split: if_splits)
    then obtain j where j: "j < length cs"
        "mv \<le> int (length (approx_polygon_of cv ef (cs ! j)))"
        "p = polygon_data cv (i + 1 + j) (cs ! j) (approx_polygon_of cv ef (cs ! j))"
      using Cons.IH by blast
    then have "Suc j < length (c # cs)
        \<and> mv \<le> int (length (approx_polygon_of cv ef ((c # cs) ! Suc j)))
        \<and> p = polygon_data cv (i + Suc j) ((c # cs) ! Suc j)
                 (approx_polygon_of cv ef ((c # cs) ! Suc j))"
      by simp
    then show ?thesis by blast
  qed
qed

lemma polygon_data_id [simp]: "id_field (polygon_data cv i c a) = i + 1"
  by (simp add: polygon_data_def)

lemma polygon_data_fields [simp]:
  "vertices (polygon_data cv i c a) = a"
  "num_vertices (polygon_data cv i c a) = length a"
  "area (polygon_data cv i c a) = contourArea cv c"
  "perimeter (polygon_data cv i c a) = arcLength cv c"
  "centroid (polygon_data cv i c a) = calculate_centroid a"
  "bounding_box (polygon_data cv i c a) =
     (case boundingRect cv c of
        (rx, ry, rw, rh) \<Rightarrow> \<lparr> box_x = rx, box_y = ry, box_width = rw, box_height = rh \<rparr>)"
  by (simp_all add: polygon_data_def Let_def)

lemma polygons_loop_id_gt: "p \<in> set (polygons_loop cv ef mv i cs) \<Longrightarrow> i < id_field p"
  by (auto dest!: polygons_loop_member)

lemma polygons_loop_ids_increasing:
  "sorted_wrt (<) (map id_field (polygons_loop cv ef mv i cs))"
proof (induction cs arbitrary: i)
  case Nil
  then show ?case by simp
next
  case (Cons c cs)
  have "\<forall>p\<in>set (polygons_loop cv ef mv (i + 1) cs). i + 1 < id_field p"
    using polygons_loop_id_gt by blast
  then show ?case using Cons.IH [of "i + 1"] by (simp add: Let_def)
qed

lemma polygons_loop_ids:
  "map id_field (polygons_loop cv ef mv i cs) =
     map (\<lambda>j. i + j + 1)
       (filter (\<lambda>j. mv \<le> int (length (approx_polygon_of cv ef (cs ! j)))) [0..<length cs])"
proof (induction cs arbitrary: i)
  case Nil
  then show ?case by simp
next
  case (Cons c cs)
  have u: "[0..<length (c # cs)] = 0 # map Suc [0..<length cs]"
    by (simp add: upt_conv_Cons map_Suc_upt del: upt_Suc)
  show ?case
    unfolding u using Cons.IH [of "i + 1"]
    by (simp add: Let_def filter_map comp_def del: upt_Suc)
qed

lemma polygons_loop_all_fail:
  "\<forall>c\<in>set cs. int (length (approx_polygon_of cv ef c)) < mv \<Longrightarrow>
     polygons_loop cv ef mv i cs = []"
  by (induction cs arbitrary: i) (simp_all add: Let_def)

lemma extract_loop_lookup:
  "distinct (map fst items) \<Longrightarrow>
     map_of (extract_loop cv ef mv items vd) k =
       (case map_of items k of
          None \<Rightarrow> map_of vd k
        | Some cs \<Rightarrow> if cs = [] then map_of vd k else Some (polygons_loop cv ef mv 0 cs))"
proof (induction items arbitrary: vd)
  case Nil
  then show ?case by simp
next
  case (Cons item rest)
  obtain k' cs' where item: "item = (k', cs')" by (cases item)
  have d: "distinct (map fst rest)" and n: "map_of rest k' = None"
    using Cons.prems item by (auto simp: map_of_eq_None_iff)
  show ?case
  proof (cases "k = k'")
    case True
    then show ?thesis using item n Cons.IH [OF d] by (simp add: update_conv')
  next
    case False
    then show ?thesis using item Cons.IH [OF d]
      by (simp add: update_conv' split: option.splits)
  qed
qed

lemma extract_lookup:
  "distinct (map fst (airspace_polygons st)) \<Longrightarrow>
     map_of (vertex_data (extract_polygon_vertices cv ef mv st)) k =
       (case map_of (airspace_polygons st) k of
          None \<Rightarrow> None
        | Some cs \<Rightarrow> if cs = [] then None else Some (polygons_loop cv ef mv 0 cs))"
  by (simp add: extract_polygon_vertices_def extract_loop_lookup split: option.splits)

lemma update_entries: "set (AList.update k v al) \<subseteq> insert (k, v) (set al)"
  by (induction al) auto

lemma extract_loop_entries:
  "(k, ps) \<in> set (extract_loop cv ef mv items vd) \<Longrightarrow>
     (k, ps) \<in> set vd \<or>
     (\<exists>cs. (k, cs) \<in> set items \<and> cs \<noteq> [] \<and> ps = polygons_loop cv ef mv 0 cs)"
proof (induction items arbitrary: vd)
  case Nil
  then show ?case by simp
next
  case (Cons item rest)
  obtain k' cs' where item: "item = (k', cs')" by (cases item)
  show ?case
  proof (cases "cs' = []")
    case True
    then show ?thesis using Cons item by auto
  next
    case False
    let ?vd = "AList.update k' (polygons_loop cv ef mv 0 cs') vd"
    have "(k, ps) \<in> set (extract_loop cv ef mv rest ?vd)"
      using Cons.prems item False by simp
    then consider "(k, ps) \<in> set ?vd"
      | "\<exists>cs. (k, cs) \<in> set rest \<and> cs \<noteq> [] \<and> ps = polygons_loop cv ef mv 0 cs"
      using Cons.IH by blast
    then show ?thesis
    proof cases
      case 1
      then have "(k, ps) = (k', polygons_loop cv ef mv 0 cs') \<or> (k, ps) \<in> set vd"
        using update_entries [of k' "polygons_loop cv ef mv 0 cs'" vd] by blast
      then show ?thesis using item False by auto
    next
      case 2
      then show ?thesis using item by auto
    qed
  qed
qed

lemma extract_entry_origin:
  assumes "(k, ps) \<in> set (vertex_data (extract_polygon_vertices cv ef mv st))"
  shows "\<exists>cs. (k, cs) \<in> set (airspace_polygons st) \<and> cs \<noteq> [] \<and>
              ps = polygons_loop cv ef mv 0 cs"
proof -
  have "(k, ps) \<in> set (extract_loop cv ef mv (airspace_polygons st) [])"
    using assms by (simp add: extract_polygon_vertices_def)
  then show ?thesis using extract_loop_entries by fastforce
qed



section \<open>Evaluation of the modelled library functions at the example contours\<close>

lemma cv_spec_fields [simp]:
  "arcLength cv_spec = arc_length_closed"
  "approxPolyDP cv_spec = approx_poly_closed"
  "contourArea cv_spec = shoelace_area"
  "boundingRect cv_spec = bounding_rect"
  by (simp_all add: cv_spec_def)

lemma seg_len_horizontal: "seg_len (x1, y) (x2, y) = \<bar>real_of_int (x2 - x1)\<bar>"
  by (simp add: seg_len_def sq_dist_def)

lemma seg_len_vertical: "seg_len (x, y1) (x, y2) = \<bar>real_of_int (y2 - y1)\<bar>"
  by (simp add: seg_len_def sq_dist_def)

lemma sq_dist_pos: "a \<noteq> b \<Longrightarrow> 0 < sq_dist a b"
  unfolding sq_dist_def
  by (cases a; cases b) (auto simp: sum_power2_gt_zero_iff)

lemma deviation_le_iff:
  "deviation a b p \<le> deviation a b q \<longleftrightarrow>
     (if a = b then sq_dist a p \<le> sq_dist a q else \<bar>cross a b p\<bar> \<le> \<bar>cross a b q\<bar>)"
proof (cases "a = b")
  case True
  then show ?thesis by (simp add: deviation_def seg_len_def)
next
  case False
  then have "0 < seg_len a b" using sq_dist_pos [of a b] by (simp add: seg_len_def)
  moreover have "\<bar>real_of_int (cross a b p)\<bar> \<le> \<bar>real_of_int (cross a b q)\<bar>
                   \<longleftrightarrow> \<bar>cross a b p\<bar> \<le> \<bar>cross a b q\<bar>"
    by (simp only: of_int_abs [symmetric] of_int_le_iff)
  ultimately show ?thesis using False by (simp add: deviation_def divide_le_cancel)
qed

lemma less_abs_iff_squares:
  fixes x y :: real
  assumes "0 \<le> x"
  shows "x < \<bar>y\<bar> \<longleftrightarrow> x\<^sup>2 < y\<^sup>2"
proof -
  have "\<bar>y\<bar> \<le> \<bar>x\<bar> \<longleftrightarrow> y\<^sup>2 \<le> x\<^sup>2" by (rule abs_le_square_iff)
  then show ?thesis using assms by (simp add: not_le [symmetric])
qed

lemma deviation_gt_iff:
  assumes "0 \<le> eps"
  shows "eps < deviation a b p \<longleftrightarrow>
     (if a = b then eps\<^sup>2 < real_of_int (sq_dist a p)
      else eps\<^sup>2 * real_of_int (sq_dist a b) < real_of_int ((cross a b p)\<^sup>2))"
proof (cases "a = b")
  case True
  have "0 \<le> sqrt (real_of_int (sq_dist a p))" by (simp add: sq_dist_def)
  then have "eps < sqrt (real_of_int (sq_dist a p))
      \<longleftrightarrow> eps\<^sup>2 < (sqrt (real_of_int (sq_dist a p)))\<^sup>2"
    using less_abs_iff_squares [OF assms, of "sqrt (real_of_int (sq_dist a p))"] by simp
  also have "\<dots> \<longleftrightarrow> eps\<^sup>2 < real_of_int (sq_dist a p)" by (simp add: sq_dist_def)
  finally show ?thesis using True by (simp add: deviation_def seg_len_def)
next
  case False
  let ?n = "real_of_int (sq_dist a b)" and ?c = "real_of_int (cross a b p)"
  have n: "0 < ?n" using sq_dist_pos [OF False] by simp
  have "eps < \<bar>?c\<bar> / sqrt ?n \<longleftrightarrow> eps * sqrt ?n < \<bar>?c\<bar>"
    using n by (simp add: pos_less_divide_eq)
  also have "\<dots> \<longleftrightarrow> (eps * sqrt ?n)\<^sup>2 < ?c\<^sup>2"
    using assms n by (intro less_abs_iff_squares) simp
  also have "\<dots> \<longleftrightarrow> eps\<^sup>2 * ?n < ?c\<^sup>2"
    using n by (simp add: power_mult_distrib)
  finally show ?thesis using False by (simp add: deviation_def seg_len_def)
qed

lemma rdp_Cons_eval:
  "0 \<le> eps \<Longrightarrow> rdp eps a (x # xs) b =
     (case split_first_max (deviation a b) x xs of
        (pre, m, post) \<Rightarrow>
          if (if a = b then eps\<^sup>2 < real_of_int (sq_dist a m)
              else eps\<^sup>2 * real_of_int (sq_dist a b) < real_of_int ((cross a b m)\<^sup>2))
          then rdp eps a pre m @ m # rdp eps m post b else [])"
  by (simp add: deviation_gt_iff split: prod.splits)

lemmas rdp_eval = rdp_Cons_eval deviation_le_iff sq_dist_def cross_def
  approx_poly_closed_def power2_eq_square

lemma arc_bump: "arc_length_closed bump_contour = 402"
  by (simp add: arc_length_closed_def bump_contour_def seg_len_horizontal seg_len_vertical)

lemma arc_sliver: "arc_length_closed sliver_contour = 2402"
  by (simp add: arc_length_closed_def sliver_contour_def seg_len_horizontal seg_len_vertical)

lemma approx_bump:
  "approx_polygon_of cv_spec default_epsilon_factor bump_contour =
     [(0, 0), (100, 0), (100, 100), (0, 100)]"
  unfolding approx_polygon_of_def cv_spec_fields arc_bump default_epsilon_factor_def Let_def
  by (simp add: bump_contour_def rdp_eval del: rdp.simps(2))

lemma approx_sliver:
  "approx_polygon_of cv_spec default_epsilon_factor sliver_contour = [(0, 0), (1200, 1)]"
  unfolding approx_polygon_of_def cv_spec_fields arc_sliver default_epsilon_factor_def Let_def
  by (simp add: sliver_contour_def rdp_eval del: rdp.simps(2))

lemma area_bump: "shoelace_area bump_contour = 10002"
  by (simp add: shoelace_area_def signed_area_def bump_contour_def)



lemma bounding_rect_bump: "bounding_rect bump_contour = (0, 0, 101, 102)"
  by (simp add: bounding_rect_def bump_contour_def)

lemma polygon_data_bump:
  "polygon_data cv_spec i bump_contour [(0, 0), (100, 0), (100, 100), (0, 100)] =
     \<lparr> id_field = i + 1, vertices = [(0, 0), (100, 0), (100, 100), (0, 100)],
       num_vertices = 4, area = 10002, perimeter = 402,
       bounding_box = \<lparr> box_x = 0, box_y = 0, box_width = 101, box_height = 102 \<rparr>,
       centroid = (50, 50) \<rparr>"
  by (simp add: polygon_data_def area_bump arc_bump bounding_rect_bump calculate_centroid_def)

lemma extract_sliver_bump:
  "vertex_data (extract_polygon_vertices cv_spec default_epsilon_factor default_min_vertices
      (example_detector [(''controlled_airspace'', [sliver_contour, bump_contour])])) =
     [(''controlled_airspace'', [bump_polygon 2])]"
  by (simp add: extract_polygon_vertices_def example_detector_def approx_sliver approx_bump
        polygon_data_bump default_min_vertices_def bump_polygon_def)

lemma sum_list_nth_real:
  "real_of_int (sum_list (map g vs)) = (\<Sum>j<length vs. real_of_int (g (vs ! j)))"
proof -
  have "sum_list (map g vs) = (\<Sum>j = 0..<length (map g vs). map g vs ! j)"
    by (rule sum_list_sum_nth)
  also have "\<dots> = (\<Sum>j<length vs. g (vs ! j))"
    by (simp add: atLeast0LessThan)
  finally show ?thesis by simp
qed

lemma extract_bump:
  "vertex_data (extract_polygon_vertices cv_spec default_epsilon_factor default_min_vertices
      (example_detector [(''controlled_airspace'', [bump_contour])])) =
     [(''controlled_airspace'', [bump_polygon 1])]"
  by (simp add: extract_polygon_vertices_def example_detector_def approx_bump
        polygon_data_bump default_min_vertices_def bump_polygon_def)

lemma extract_empty_and_sliver:
  "vertex_data (extract_polygon_vertices cv_spec default_epsilon_factor default_min_vertices
      (example_detector [(''restricted_airspace'', []), (''controlled_airspace'', [sliver_contour])])) =
     [(''controlled_airspace'', [])]"
  by (simp add: extract_polygon_vertices_def example_detector_def approx_sliver
        default_min_vertices_def)

lemma extract_four:
  "vertex_data (extract_polygon_vertices cv_spec default_epsilon_factor default_min_vertices
      (example_detector
        [(''controlled_airspace'', [sliver_contour, bump_contour, sliver_contour, bump_contour])])) =
     [(''controlled_airspace'', [bump_polygon 2, bump_polygon 4])]"
  by (simp add: extract_polygon_vertices_def example_detector_def approx_sliver approx_bump
        polygon_data_bump default_min_vertices_def bump_polygon_def Let_def)

section \<open>Properties of the rounding\<close>

lemmas double_eval = to_double_def binade.simps pow2_def round_half_even_def Let_def

lemma to_double_zero [simp]: "to_double 0 = 0"
  by (simp add: double_eval)

lemma pow2_powi: "pow2 e = 2 powi e"
  by (simp add: pow2_def power_int_def inverse_eq_divide power_one_over)

lemma pow2_pos: "0 < pow2 e"
  by (simp add: pow2_powi)

lemma pow2_succ: "pow2 (e + 1) = 2 * pow2 e"
  by (simp add: pow2_powi power_int_add)

lemma pow2_pred: "pow2 (e - 1) = pow2 e / 2"
  using pow2_succ [of "e - 1"] by simp

lemma binade_bounds: "0 < x \<Longrightarrow> pow2 (binade x) \<le> x \<and> x < pow2 (binade x + 1)"
proof (induction x rule: binade.induct)
  case (1 x)
  show ?case
  proof (cases "2 \<le> x")
    case True
    then have b: "binade x = binade (x / 2) + 1" using "1.prems" by (simp add: binade.simps)
    have "pow2 (binade (x / 2)) \<le> x / 2 \<and> x / 2 < pow2 (binade (x / 2) + 1)"
      using "1.IH"(1) True "1.prems" by simp
    moreover have "pow2 (binade (x / 2) + 1) = 2 * pow2 (binade (x / 2))"
      by (rule pow2_succ)
    moreover have "pow2 (binade (x / 2) + 1 + 1) = 2 * pow2 (binade (x / 2) + 1)"
      by (rule pow2_succ)
    ultimately show ?thesis unfolding b by linarith
  next
    case False
    show ?thesis
    proof (cases "x < 1")
      case True
      then have b: "binade x = binade (x * 2) - 1"
        using False "1.prems" by (simp add: binade.simps)
      have "pow2 (binade (x * 2)) \<le> x * 2 \<and> x * 2 < pow2 (binade (x * 2) + 1)"
        using "1.IH"(2) True False "1.prems" by simp
      moreover have "pow2 (binade (x * 2) + 1) = 2 * pow2 (binade (x * 2))"
        by (rule pow2_succ)
      moreover have "pow2 (binade (x * 2) - 1) = pow2 (binade (x * 2)) / 2"
        by (rule pow2_pred)
      moreover have "binade (x * 2) - 1 + 1 = binade (x * 2)" by simp
      ultimately show ?thesis unfolding b by (simp only:) linarith
    next
      case f: False
      then have "binade x = 0" using False "1.prems" by (simp add: binade.simps)
      then show ?thesis using False f by (simp add: pow2_def)
    qed
  qed
qed

lemma round_half_even_near: "\<bar>real_of_int (round_half_even t) - t\<bar> \<le> 1 / 2"
  unfolding round_half_even_def Let_def
  by (auto simp: abs_le_iff)

lemma to_double_error:
  "\<bar>to_double x - x\<bar> \<le> pow2 (max (binade \<bar>x\<bar>) (- 1022) - 52) / 2"
proof -
  let ?u = "pow2 (max (binade \<bar>x\<bar>) (- 1022) - 52)"
  have u: "0 < ?u" by (rule pow2_pos)
  have "\<bar>real_of_int (round_half_even (x / ?u)) - x / ?u\<bar> \<le> 1 / 2"
    by (rule round_half_even_near)
  then have "\<bar>real_of_int (round_half_even (x / ?u)) - x / ?u\<bar> * ?u \<le> 1 / 2 * ?u"
    using u by (simp add: mult_right_mono)
  moreover have "\<bar>real_of_int (round_half_even (x / ?u)) - x / ?u\<bar> * ?u =
      \<bar>real_of_int (round_half_even (x / ?u)) * ?u - x\<bar>"
    using u by (simp add: abs_mult [symmetric] left_diff_distrib abs_mult_pos)
  ultimately show ?thesis by (simp add: to_double_def Let_def)
qed

lemma pow2_mono: "a \<le> b \<Longrightarrow> pow2 a \<le> pow2 b"
  by (simp add: pow2_powi power_int_increasing)

lemma pow2_diff: "pow2 (a - b) = pow2 a / pow2 b"
  by (simp add: pow2_powi power_int_diff)

lemma round_half_even_int [simp]: "round_half_even (real_of_int m) = m"
  by (simp add: round_half_even_def)

text \<open>The relative error of rounding is at most \<open>2\<^sup>-\<^sup>5\<^sup>3\<close>, apart from underflow.\<close>

lemma to_double_rel: "\<bar>to_double x - x\<bar> \<le> (\<bar>x\<bar> + 1) / 2 ^ 53"
proof (cases "x = 0")
  case True
  then show ?thesis by simp
next
  case False
  let ?b = "binade \<bar>x\<bar>"
  have b: "pow2 ?b \<le> \<bar>x\<bar>" using binade_bounds [of "\<bar>x\<bar>"] False by simp
  have e: "\<bar>to_double x - x\<bar> \<le> pow2 (max ?b (- 1022) - 52) / 2" by (rule to_double_error)
  show ?thesis
  proof (cases "- 1022 \<le> ?b")
    case True
    then have "pow2 (max ?b (- 1022) - 52) / 2 = pow2 ?b / pow2 52 / 2"
      by (simp add: max_def pow2_diff)
    also have "\<dots> = pow2 ?b / 2 ^ 53" by (simp add: pow2_def)
    also have "\<dots> \<le> (\<bar>x\<bar> + 1) / 2 ^ 53" using b by (simp add: divide_right_mono)
    finally show ?thesis using e by linarith
  next
    case f: False
    then have "pow2 (max ?b (- 1022) - 52) = pow2 (- 1074)" by (simp add: max_def)
    also have "\<dots> \<le> pow2 (- 52)" by (rule pow2_mono) simp
    finally have "pow2 (max ?b (- 1022) - 52) / 2 \<le> pow2 (- 52) / 2" by simp
    also have "\<dots> = 1 / 2 ^ 53" by (simp add: pow2_def)
    also have "\<dots> \<le> (\<bar>x\<bar> + 1) / 2 ^ 53" by (simp add: divide_right_mono)
    finally show ?thesis using e by linarith
  qed
qed

text \<open>Integers below \<open>2\<^sup>5\<^sup>3\<close> in magnitude are doubles.\<close>

lemma to_double_int:
  assumes "\<bar>n\<bar> < 2 ^ 53"
  shows "to_double (real_of_int n) = real_of_int n"
proof (cases "n = 0")
  case True
  then show ?thesis by simp
next
  case False
  let ?x = "\<bar>real_of_int n\<bar>"
  let ?b = "binade ?x"
  have x1: "1 \<le> ?x" using False by (simp flip: of_int_abs)
  have x2: "?x < 2 ^ 53"
  proof -
    have "real_of_int \<bar>n\<bar> < real_of_int (2 ^ 53)" using assms by (simp only: of_int_less_iff)
    then show ?thesis by simp
  qed
  have bb: "pow2 ?b \<le> ?x \<and> ?x < pow2 (?b + 1)"
    using binade_bounds [of ?x] x1 by simp
  have lo: "0 \<le> ?b"
  proof (rule ccontr)
    assume "\<not> 0 \<le> ?b"
    then have "?b + 1 \<le> 0" by simp
    then have "pow2 (?b + 1) \<le> pow2 0" by (rule pow2_mono)
    then show False using bb x1 by (simp add: pow2_def)
  qed
  have hi: "?b \<le> 52"
  proof (rule ccontr)
    assume "\<not> ?b \<le> 52"
    then have "53 \<le> ?b" by simp
    then have "pow2 53 \<le> pow2 ?b" by (rule pow2_mono)
    then show False using bb x2 by (simp add: pow2_def)
  qed
  define k where "k = nat (52 - ?b)"
  have e: "max ?b (- 1022) - 52 = - int k" using lo hi by (simp add: k_def max_def)
  have p: "pow2 (- int k) = 1 / 2 ^ k" by (simp add: pow2_powi power_int_minus_divide)
  have "real_of_int n / pow2 (- int k) = real_of_int (n * 2 ^ k)" by (simp add: p)
  then have "to_double (real_of_int n) = real_of_int (n * 2 ^ k) * pow2 (- int k)"
    by (simp add: to_double_def Let_def e del: of_int_mult)
  also have "\<dots> = real_of_int n" by (simp add: p)
  finally show ?thesis .
qed


text \<open>
  The product of a coordinate with the rounded scale, against the exact product: \<open>d\<close> is
  the exact range, \<open>H\<close> the image size, \<open>y\<close> the pixel coordinate.
\<close>

lemma scaled_product_error:
  fixes d H y :: real
  assumes d: "\<bar>d\<bar> \<le> 360" and H: "1 \<le> H" and y: "\<bar>y\<bar> \<le> 2 ^ 31"
  defines "p \<equiv> to_double (y * to_double (to_double d / H))"
  shows "\<bar>p - y * d / H\<bar> \<le> (1085 * \<bar>y\<bar> + 1) / 2 ^ 53" and "\<bar>p\<bar> \<le> 362 * \<bar>y\<bar> + 1"
proof -
  define u :: real where "u = 1 / 2 ^ 53"
  have u0: "0 \<le> u" and u1: "362 * u \<le> 1" by (simp_all add: u_def)
  have rel: "\<bar>to_double x - x\<bar> \<le> (\<bar>x\<bar> + 1) * u" for x
    using to_double_rel [of x] by (simp add: u_def)
  define lr where "lr = to_double d"
  define q where "q = lr / H"
  define ls where "ls = to_double q"
  define t where "t = y * ls"
  have p: "p = to_double t" by (simp add: p_def t_def ls_def q_def lr_def)
  have a1: "\<bar>lr - d\<bar> \<le> 361 * u"
  proof -
    have "\<bar>lr - d\<bar> \<le> (\<bar>d\<bar> + 1) * u" unfolding lr_def by (rule rel)
    also have "\<dots> \<le> 361 * u" using d u0 by (simp add: mult_right_mono)
    finally show ?thesis .
  qed
  have lr: "\<bar>lr\<bar> \<le> 361" using a1 d u0 u1 by linarith
  have qle: "\<bar>q\<bar> \<le> \<bar>lr\<bar>"
  proof -
    have "\<bar>q\<bar> = \<bar>lr\<bar> / H" using H by (simp add: q_def)
    also have "\<dots> \<le> \<bar>lr\<bar> / 1" using H by (intro divide_left_mono) simp_all
    finally show ?thesis by simp
  qed
  have qd: "\<bar>q - d / H\<bar> \<le> 361 * u"
  proof -
    have "q - d / H = (lr - d) / H" by (simp add: q_def diff_divide_distrib)
    then have "\<bar>q - d / H\<bar> = \<bar>lr - d\<bar> / H" using H by simp
    also have "\<dots> \<le> \<bar>lr - d\<bar> / 1" using H by (intro divide_left_mono) simp_all
    finally show ?thesis using a1 by simp
  qed
  have a2: "\<bar>ls - q\<bar> \<le> 362 * u"
  proof -
    have "\<bar>ls - q\<bar> \<le> (\<bar>q\<bar> + 1) * u" unfolding ls_def by (rule rel)
    also have "\<dots> \<le> 362 * u" using qle lr u0 by (simp add: mult_right_mono)
    finally show ?thesis .
  qed
  have ls: "\<bar>ls\<bar> \<le> 362" using a2 qle lr u0 u1 by linarith
  have lsd: "\<bar>ls - d / H\<bar> \<le> 723 * u" using a2 qd by linarith
  have tb: "\<bar>t\<bar> \<le> 362 * \<bar>y\<bar>"
  proof -
    have "\<bar>t\<bar> = \<bar>y\<bar> * \<bar>ls\<bar>" by (simp add: t_def abs_mult)
    also have "\<dots> \<le> \<bar>y\<bar> * 362" using ls by (intro mult_left_mono) simp_all
    finally show ?thesis by simp
  qed
  have td: "\<bar>t - y * d / H\<bar> \<le> 723 * \<bar>y\<bar> * u"
  proof -
    have "t - y * d / H = y * (ls - d / H)" by (simp add: t_def right_diff_distrib)
    then have "\<bar>t - y * d / H\<bar> = \<bar>y\<bar> * \<bar>ls - d / H\<bar>" by (simp add: abs_mult)
    also have "\<dots> \<le> \<bar>y\<bar> * (723 * u)" using lsd by (intro mult_left_mono) simp_all
    finally show ?thesis by simp
  qed
  have a3: "\<bar>p - t\<bar> \<le> (362 * \<bar>y\<bar> + 1) * u"
  proof -
    have "\<bar>p - t\<bar> \<le> (\<bar>t\<bar> + 1) * u" unfolding p by (rule rel)
    also have "\<dots> \<le> (362 * \<bar>y\<bar> + 1) * u" using tb u0 by (simp add: mult_right_mono)
    finally show ?thesis .
  qed
  have small: "(362 * \<bar>y\<bar> + 1) * u \<le> 1"
  proof -
    have "(362 * \<bar>y\<bar> + 1) * u \<le> (362 * 2 ^ 31 + 1) * u"
      using y u0 by (intro mult_right_mono) simp_all
    also have "\<dots> \<le> 1" by (simp add: u_def)
    finally show ?thesis .
  qed
  have "\<bar>p - y * d / H\<bar> \<le> (362 * \<bar>y\<bar> + 1) * u + 723 * \<bar>y\<bar> * u"
    using a3 td by linarith
  also have "\<dots> = (1085 * \<bar>y\<bar> + 1) * u" by (simp add: algebra_simps)
  finally show "\<bar>p - y * d / H\<bar> \<le> (1085 * \<bar>y\<bar> + 1) / 2 ^ 53" by (simp add: u_def)
  show "\<bar>p\<bar> \<le> 362 * \<bar>y\<bar> + 1" using a3 tb small by linarith
qed

text \<open>The offset by a bound of at most 180 degrees, added or subtracted, and rounded.\<close>

lemma interpolation_error:
  fixes n d H y s :: real
  assumes n: "\<bar>n\<bar> \<le> 180" and d: "\<bar>d\<bar> \<le> 360" and H: "1 \<le> H" and y: "\<bar>y\<bar> \<le> 2 ^ 31"
    and s: "s = 1 \<or> s = - 1"
  shows "\<bar>to_double (n + s * to_double (y * to_double (to_double d / H))) - (n + s * (y * d / H))\<bar>
           \<le> (\<bar>y\<bar> + 1) / 2 ^ 42"
proof -
  define p where "p = to_double (y * to_double (to_double d / H))"
  have e: "\<bar>p - y * d / H\<bar> \<le> (1085 * \<bar>y\<bar> + 1) / 2 ^ 53" and b: "\<bar>p\<bar> \<le> 362 * \<bar>y\<bar> + 1"
    unfolding p_def using scaled_product_error [OF d H y] by simp_all
  have sp: "\<bar>s * p\<bar> = \<bar>p\<bar>" and se: "\<bar>s * p - s * (y * d / H)\<bar> = \<bar>p - y * d / H\<bar>"
    using s by (auto simp: abs_minus_commute)
  have "\<bar>to_double (n + s * p) - (n + s * p)\<bar> \<le> (\<bar>n + s * p\<bar> + 1) / 2 ^ 53"
    by (rule to_double_rel)
  also have "\<dots> \<le> (362 * \<bar>y\<bar> + 182) / 2 ^ 53"
  proof (rule divide_right_mono)
    show "\<bar>n + s * p\<bar> + 1 \<le> 362 * \<bar>y\<bar> + 182" using n b sp by linarith
    show "(0::real) \<le> 2 ^ 53" by simp
  qed
  finally have r: "\<bar>to_double (n + s * p) - (n + s * p)\<bar> \<le> (362 * \<bar>y\<bar> + 182) / 2 ^ 53" .
  have "\<bar>to_double (n + s * p) - (n + s * (y * d / H))\<bar>
          \<le> (362 * \<bar>y\<bar> + 182) / 2 ^ 53 + (1085 * \<bar>y\<bar> + 1) / 2 ^ 53"
    using r e se by linarith
  also have "\<dots> = (1447 * \<bar>y\<bar> + 183) / 2 ^ 53"
    by (simp add: add_divide_distrib [symmetric] del: power_numeral)
  also have "\<dots> \<le> (2048 * (\<bar>y\<bar> + 1)) / 2 ^ 53"
  proof (rule divide_right_mono)
    show "1447 * \<bar>y\<bar> + 183 \<le> 2048 * (\<bar>y\<bar> + 1)" by simp
    show "(0::real) \<le> 2 ^ 53" by simp
  qed
  also have "\<dots> = (\<bar>y\<bar> + 1) / 2 ^ 42" by simp
  finally show ?thesis unfolding p_def .
qed


lemma to_double_nat: "n < 2 ^ 31 \<Longrightarrow> to_double (real n) = real n"
proof -
  assume "n < 2 ^ 31"
  then have "\<bar>int n\<bar> < 2 ^ 53" by (simp add: order_less_trans [of _ "2 ^ 31"])
  then have "to_double (real_of_int (int n)) = real_of_int (int n)" by (rule to_double_int)
  then show ?thesis by simp
qed

lemma to_double_pixel: "\<bar>y\<bar> < 2 ^ 31 \<Longrightarrow> to_double (real_of_int y) = real_of_int y"
proof -
  assume "\<bar>y\<bar> < 2 ^ 31"
  then have "\<bar>y\<bar> < 2 ^ 53" by (simp add: order_less_trans [of _ "2 ^ 31"])
  then show ?thesis by (rule to_double_int)
qed

subsection \<open>Evaluation at explicit bounds\<close>

lemma bordeaux_values:
  "north bordeaux_doubles = 3180667236830413 / 2 ^ 46"
  "south bordeaux_doubles = 89 / 2"
  "east bordeaux_doubles = - 5404319552844595 / 2 ^ 54"
  "west bordeaux_doubles = - 1"
  by (simp_all add: bordeaux_doubles_def double_eval)

lemma unit_49:
  "map_pixel_to_latlon_float 49 49 [(49, 49)] unit_bounds = Inr [(1 / 2 ^ 53, 1 - 1 / 2 ^ 53)]"
  unfolding map_pixel_to_latlon_float_def unit_bounds_def Let_def list.map prod.case
    chart_bounds.select_convs
  by (simp add: double_eval)

lemma bordeaux_corner:
  "map_pixel_to_latlon_float 800 1000 [(1000, 800)] bordeaux_doubles =
     Inr [(89 / 2, - 5404319552844596 / 2 ^ 54)]"
  unfolding map_pixel_to_latlon_float_def bordeaux_values Let_def list.map prod.case
  by (simp add: double_eval)



lemma pixel_500_400:
  "map_pixel_to_latlon_float 800 1000 [(500, 400)] bordeaux_doubles =
     Inr [(6312076352736461 / 2 ^ 47, - 5854679515581645 / 2 ^ 53)]"
  unfolding map_pixel_to_latlon_float_def bordeaux_values Let_def list.map prod.case
  by (simp add: double_eval)

lemma geographic_bordeaux: "geographic bordeaux_doubles"
  unfolding geographic_def is_double_def bordeaux_values
  by (simp add: double_eval)

lemma float_same_shape:
  "(map_pixel_to_latlon_float height width pcs cb = Inl e) =
     (map_pixel_to_latlon height width pcs cb = Inl e)"
  "map_pixel_to_latlon_float height width pcs cb = Inr out \<Longrightarrow>
     \<exists>out'. map_pixel_to_latlon height width pcs cb = Inr out' \<and> length out' = length out"
  by (auto simp: map_pixel_to_latlon_float_def map_pixel_to_latlon_def Let_def split: if_splits)

section \<open>The claims\<close>

text \<open>
  C1, as stated, fails: for the square with a one-pixel bump the stored area is 10002,
  the area of the original contour, while the shoelace area of the stored (simplified)
  vertex list is 10000.
\<close>

theorem area_of_simplified_counterexample:
  "vertex_data (extract_polygon_vertices cv_spec default_epsilon_factor default_min_vertices
      (example_detector [(''controlled_airspace'', [bump_contour])])) =
     [(''controlled_airspace'', [bump_polygon 1])] \<and>
   area (bump_polygon 1) = 10002 \<and>
   shoelace_area (vertices (bump_polygon 1)) = 10000 \<and>
   area (bump_polygon 1) \<noteq> shoelace_area (vertices (bump_polygon 1))"
  by (simp add: extract_bump) (simp add: bump_polygon_def shoelace_area_def signed_area_def)

text \<open>
  C1, amended. Every polygon record in the output comes from one contour of its class:
  its vertices are the approximation of that contour, and its area, its perimeter and
  its bounding box are all computed from the original, un-simplified contour (the area
  is \<^verbatim>\<open>cv2.contourArea\<close> of the contour, not of the simplified vertex list).
\<close>

theorem recorded_area_is_contour_area:
  assumes "(k, ps) \<in> set (vertex_data (extract_polygon_vertices cv ef mv st))"
    and "p \<in> set ps"
  shows "\<exists>cs j. (k, cs) \<in> set (airspace_polygons st) \<and> j < length cs \<and>
           id_field p = j + 1 \<and>
           vertices p = approx_polygon_of cv ef (cs ! j) \<and>
           area p = contourArea cv (cs ! j) \<and>
           perimeter p = arcLength cv (cs ! j) \<and>
           bounding_box p =
             (case boundingRect cv (cs ! j) of
                (rx, ry, rw, rh) \<Rightarrow>
                  \<lparr> box_x = rx, box_y = ry, box_width = rw, box_height = rh \<rparr>)"
proof -
  obtain cs where cs: "(k, cs) \<in> set (airspace_polygons st)" "ps = polygons_loop cv ef mv 0 cs"
    using extract_entry_origin [OF assms(1)] by blast
  obtain j where j: "j < length cs"
      "p = polygon_data cv (0 + j) (cs ! j) (approx_polygon_of cv ef (cs ! j))"
    using assms(2) cs(2) polygons_loop_member by blast
  have "(k, cs) \<in> set (airspace_polygons st) \<and> j < length cs \<and>
           id_field p = j + 1 \<and>
           vertices p = approx_polygon_of cv ef (cs ! j) \<and>
           area p = contourArea cv (cs ! j) \<and>
           perimeter p = arcLength cv (cs ! j) \<and>
           bounding_box p =
             (case boundingRect cv (cs ! j) of
                (rx, ry, rw, rh) \<Rightarrow>
                  \<lparr> box_x = rx, box_y = ry, box_width = rw, box_height = rh \<rparr>)"
    using cs(1) j by simp
  then show ?thesis by blast
qed

theorem recorded_area_is_contour_area_witness:
  "(''controlled_airspace'', [bump_polygon 1]) \<in>
     set (vertex_data (extract_polygon_vertices cv_spec default_epsilon_factor default_min_vertices
            (example_detector [(''controlled_airspace'', [bump_contour])]))) \<and>
   bump_polygon 1 \<in> set [bump_polygon 1] \<and>
   (\<exists>cs j. (''controlled_airspace'', cs) \<in>
              set (airspace_polygons (example_detector [(''controlled_airspace'', [bump_contour])])) \<and>
           j < length cs \<and> id_field (bump_polygon 1) = j + 1 \<and>
           area (bump_polygon 1) = contourArea cv_spec (cs ! j)) \<and>
   area (bump_polygon 1) = shoelace_area bump_contour"
proof -
  let ?st = "example_detector [(''controlled_airspace'', [bump_contour])]"
  have m: "(''controlled_airspace'', [bump_polygon 1]) \<in>
     set (vertex_data (extract_polygon_vertices cv_spec default_epsilon_factor
            default_min_vertices ?st))"
    by (simp add: extract_bump)
  have p: "bump_polygon 1 \<in> set [bump_polygon 1]" by simp
  have a: "area (bump_polygon 1) = shoelace_area bump_contour"
    by (simp add: bump_polygon_def area_bump)
  show ?thesis
    using m p a recorded_area_is_contour_area [OF m p] by blast
qed

text \<open>
  C2, as stated, fails: with \<open>north \<le> south\<close> and \<open>east = west\<close> the mapping does not fail
  but returns coordinates.
\<close>

theorem geo_mapping_fails_on_bad_bounds_counterexample:
  "north degenerate_bounds \<le> south degenerate_bounds \<and>
   east degenerate_bounds = west degenerate_bounds \<and>
   map_pixel_to_latlon 800 1000 [(500, 400)] degenerate_bounds = Inr [(44.5, -1)]"
  by (simp add: map_pixel_to_latlon_def degenerate_bounds_def)

text \<open>
  C2, amended. The mapping does not inspect the bounds: it raises (a division by zero)
  exactly when the image height or width is zero, and for positive height and width it
  succeeds for all bounds and returns one pair per input pixel, in input order.
\<close>

theorem geo_mapping_total:
  "(map_pixel_to_latlon height width pcs cb = Inl ZeroDivisionError
      \<longleftrightarrow> height = 0 \<or> width = 0) \<and>
   (0 < height \<and> 0 < width \<longrightarrow>
      (\<exists>out. map_pixel_to_latlon height width pcs cb = Inr out \<and>
             length out = length pcs \<and>
             (\<forall>i<length pcs. out ! i =
                (north cb - real_of_int (snd (pcs ! i)) * ((north cb - south cb) / real height),
                 west cb + real_of_int (fst (pcs ! i)) * ((east cb - west cb) / real width)))))"
  by (auto simp add: map_pixel_to_latlon_def Let_def case_prod_beta)

theorem geo_mapping_total_witness:
  "(0::nat) < 800 \<and> (0::nat) < 1000 \<and>
   north degenerate_bounds \<le> south degenerate_bounds \<and>
   (\<exists>out. map_pixel_to_latlon 800 1000 [(500, 400)] degenerate_bounds = Inr out \<and>
          length out = length [(500, 400) :: int \<times> int] \<and>
          out ! 0 = (44.5, -1))"
  using geo_mapping_total [of 800 1000 "[(500, 400)]" degenerate_bounds]
  by (auto simp add: degenerate_bounds_def)





text \<open>
  C4, as stated, fails in double arithmetic. For a 49 by 49 image with bounds 1, 0, 1, 0
  the formula gives latitude 0 for pixel \<open>(49, 49)\<close>, the program gives
  \<open>2\<^sup>-\<^sup>5\<^sup>3\<close> and longitude \<open>1 - 2\<^sup>-\<^sup>5\<^sup>3\<close>, not \<open>(south, east)\<close>. For the 1000 by 800
  image with the bounds 45.2, 44.5, -0.3, -1.0 pixel \<open>(1000, 800)\<close> gets the longitude
  -0.30000000000000004, one unit in the last place away from the double -0.3.
\<close>

theorem geo_mapping_exact_counterexample:
  "map_pixel_to_latlon_float 49 49 [(int 49, int 49)] unit_bounds =
     Inr [(1 / 2 ^ 53, 1 - 1 / 2 ^ 53)] \<and>
   north unit_bounds - real_of_int 49 * (north unit_bounds - south unit_bounds) / real 49
     = south unit_bounds \<and>
   (1 / 2 ^ 53, 1 - 1 / 2 ^ 53) \<noteq> (south unit_bounds, east unit_bounds) \<and>
   map_pixel_to_latlon_float 800 1000 [(int 1000, int 800)] bordeaux_doubles =
     Inr [(89 / 2, - 5404319552844596 / 2 ^ 54)] \<and>
   east bordeaux_doubles = - 5404319552844595 / 2 ^ 54"
  using unit_49 bordeaux_corner bordeaux_values(3)
  by (simp add: unit_bounds_def)

text \<open>
  C4, amended. For an image of positive height and width, geographic bounds that are
  doubles, and pixel coordinates and image sizes below \<open>2\<^sup>3\<^sup>1\<close>, the mapping returns for
  every pixel \<open>(x, y)\<close> the latitude \<open>north - y * ((north - south) / height)\<close> and the
  longitude \<open>west + x * ((east - west) / width)\<close> with every operation rounded to the
  nearest double. These differ from the exact values of the formula by at most
  \<open>(\<bar>y\<bar> + 1) / 2\<^sup>4\<^sup>2\<close> and \<open>(\<bar>x\<bar> + 1) / 2\<^sup>4\<^sup>2\<close> degrees, and pixel \<open>(0, 0)\<close> maps
  exactly to \<open>(north, west)\<close>. Pixel \<open>(width, height)\<close> reaches \<open>(south, east)\<close> within
  that error, not exactly.
\<close>

theorem geo_mapping_rounded:
  assumes "0 < height" and "height < 2 ^ 31" and "0 < width" and "width < 2 ^ 31"
    and "geographic cb"
    and "\<forall>(x, y) \<in> set pcs. \<bar>x\<bar> < 2 ^ 31 \<and> \<bar>y\<bar> < 2 ^ 31"
  shows "map_pixel_to_latlon_float height width pcs cb =
           Inr (map (\<lambda>(x, y).
                  (to_double (north cb - to_double (to_double (real_of_int y) *
                     to_double (to_double (north cb - south cb) / to_double (real height)))),
                   to_double (west cb + to_double (to_double (real_of_int x) *
                     to_double (to_double (east cb - west cb) / to_double (real width))))))
                pcs) \<and>
         (\<exists>out. map_pixel_to_latlon_float height width pcs cb = Inr out \<and>
            length out = length pcs \<and>
            (\<forall>i<length pcs.
               \<bar>fst (out ! i) -
                  (north cb - real_of_int (snd (pcs ! i)) * (north cb - south cb) / real height)\<bar>
                 \<le> (\<bar>real_of_int (snd (pcs ! i))\<bar> + 1) / 2 ^ 42 \<and>
               \<bar>snd (out ! i) -
                  (west cb + real_of_int (fst (pcs ! i)) * (east cb - west cb) / real width)\<bar>
                 \<le> (\<bar>real_of_int (fst (pcs ! i))\<bar> + 1) / 2 ^ 42)) \<and>
         map_pixel_to_latlon_float height width [(0, 0)] cb = Inr [(north cb, west cb)]"
proof -
  let ?f = "\<lambda>(x, y).
                  (to_double (north cb - to_double (to_double (real_of_int y) *
                     to_double (to_double (north cb - south cb) / to_double (real height)))),
                   to_double (west cb + to_double (to_double (real_of_int x) *
                     to_double (to_double (east cb - west cb) / to_double (real width)))))"
  have g: "to_double (north cb) = north cb" "to_double (west cb) = west cb"
      "\<bar>north cb\<bar> \<le> 90" "\<bar>south cb\<bar> \<le> 90" "\<bar>east cb\<bar> \<le> 180" "\<bar>west cb\<bar> \<le> 180"
    using assms(5) by (simp_all add: geographic_def is_double_def)
  have r: "map_pixel_to_latlon_float height width ps cb = Inr (map ?f ps)" for ps
    using assms(1,3) by (simp add: map_pixel_to_latlon_float_def Let_def)
  have z: "map_pixel_to_latlon_float height width [(0, 0)] cb = Inr [(north cb, west cb)]"
    unfolding r using g(1,2) by simp
  have hh: "to_double (real height) = real height" "1 \<le> real height"
    using assms(1,2) by (simp_all add: to_double_nat)
  have ww: "to_double (real width) = real width" "1 \<le> real width"
    using assms(3,4) by (simp_all add: to_double_nat)
  have b: "\<bar>fst (map ?f pcs ! i) -
                  (north cb - real_of_int (snd (pcs ! i)) * (north cb - south cb) / real height)\<bar>
                 \<le> (\<bar>real_of_int (snd (pcs ! i))\<bar> + 1) / 2 ^ 42 \<and>
               \<bar>snd (map ?f pcs ! i) -
                  (west cb + real_of_int (fst (pcs ! i)) * (east cb - west cb) / real width)\<bar>
                 \<le> (\<bar>real_of_int (fst (pcs ! i))\<bar> + 1) / 2 ^ 42"
    if i: "i < length pcs" for i
  proof -
    obtain x y where xy: "pcs ! i = (x, y)" by (cases "pcs ! i")
    have "(x, y) \<in> set pcs" using i xy by (metis nth_mem)
    then have xr: "\<bar>x\<bar> < 2 ^ 31" and yr: "\<bar>y\<bar> < 2 ^ 31" using assms(6) by auto
    have cx: "to_double (real_of_int x) = real_of_int x" by (rule to_double_pixel [OF xr])
    have cy: "to_double (real_of_int y) = real_of_int y" by (rule to_double_pixel [OF yr])
    have yb: "\<bar>real_of_int y\<bar> \<le> 2 ^ 31"
    proof -
      have "real_of_int \<bar>y\<bar> \<le> real_of_int (2 ^ 31)" using yr by (simp only: of_int_le_iff)
      then show ?thesis by simp
    qed
    have xb: "\<bar>real_of_int x\<bar> \<le> 2 ^ 31"
    proof -
      have "real_of_int \<bar>x\<bar> \<le> real_of_int (2 ^ 31)" using xr by (simp only: of_int_le_iff)
      then show ?thesis by simp
    qed
    have nb: "\<bar>north cb\<bar> \<le> 180" and wb: "\<bar>west cb\<bar> \<le> 180" using g by simp_all
    have dlat: "\<bar>north cb - south cb\<bar> \<le> 360" and dlon: "\<bar>east cb - west cb\<bar> \<le> 360"
      using g by linarith+
    have lat: "\<bar>to_double (north cb + - 1 * to_double (real_of_int y *
                 to_double (to_double (north cb - south cb) / real height))) -
               (north cb + - 1 * (real_of_int y * (north cb - south cb) / real height))\<bar>
               \<le> (\<bar>real_of_int y\<bar> + 1) / 2 ^ 42"
      by (rule interpolation_error [OF nb dlat hh(2) yb]) simp
    have lon: "\<bar>to_double (west cb + 1 * to_double (real_of_int x *
                 to_double (to_double (east cb - west cb) / real width))) -
               (west cb + 1 * (real_of_int x * (east cb - west cb) / real width))\<bar>
               \<le> (\<bar>real_of_int x\<bar> + 1) / 2 ^ 42"
      by (rule interpolation_error [OF wb dlon ww(2) xb]) simp
    show ?thesis using lat lon i by (simp add: xy cx cy hh(1) ww(1))
  qed
  have "map_pixel_to_latlon_float height width pcs cb = Inr (map ?f pcs) \<and>
            length (map ?f pcs) = length pcs \<and>
            (\<forall>i<length pcs.
               \<bar>fst (map ?f pcs ! i) -
                  (north cb - real_of_int (snd (pcs ! i)) * (north cb - south cb) / real height)\<bar>
                 \<le> (\<bar>real_of_int (snd (pcs ! i))\<bar> + 1) / 2 ^ 42 \<and>
               \<bar>snd (map ?f pcs ! i) -
                  (west cb + real_of_int (fst (pcs ! i)) * (east cb - west cb) / real width)\<bar>
                 \<le> (\<bar>real_of_int (fst (pcs ! i))\<bar> + 1) / 2 ^ 42)"
    using r b by simp
  then show ?thesis using r z by blast
qed

theorem geo_mapping_rounded_witness:
  "(0::nat) < 800 \<and> (800::nat) < 2 ^ 31 \<and> (0::nat) < 1000 \<and> (1000::nat) < 2 ^ 31 \<and>
   geographic bordeaux_doubles \<and>
   \<bar>500\<bar> < (2::int) ^ 31 \<and> \<bar>400\<bar> < (2::int) ^ 31 \<and>
   map_pixel_to_latlon_float 800 1000 [(500, 400)] bordeaux_doubles =
     Inr [(6312076352736461 / 2 ^ 47, - 5854679515581645 / 2 ^ 53)] \<and>
   map_pixel_to_latlon_float 800 1000 [(0, 0)] bordeaux_doubles =
     Inr [(north bordeaux_doubles, west bordeaux_doubles)]"
proof -
  have h: "(0::nat) < 800" "(800::nat) < 2 ^ 31" "(0::nat) < 1000" "(1000::nat) < 2 ^ 31"
    by simp_all
  have p: "\<forall>(x, y) \<in> set [(500, 400)]. \<bar>x\<bar> < (2::int) ^ 31 \<and> \<bar>y\<bar> < (2::int) ^ 31"
    by simp
  have q: "\<bar>500\<bar> < (2::int) ^ 31 \<and> \<bar>400\<bar> < (2::int) ^ 31" by simp
  show ?thesis
    using geo_mapping_rounded [OF h(1) h(2) h(3) h(4) geographic_bordeaux p,
        THEN conjunct2, THEN conjunct2]
      h q geographic_bordeaux pixel_500_400
    by blast
qed

text \<open>
  C5. Every polygon record in the output collection has \<open>num_vertices\<close> equal to the length
  of its vertex list, and that length is at least the \<open>min_vertices\<close> argument.
\<close>

theorem num_vertices_invariant:
  "\<forall>(k, ps) \<in> set (vertex_data (extract_polygon_vertices cv ef mv st)).
     \<forall>p \<in> set ps. num_vertices p = length (vertices p) \<and> mv \<le> int (length (vertices p))"
proof -
  have "num_vertices p = length (vertices p) \<and> mv \<le> int (length (vertices p))"
    if e: "(k, ps) \<in> set (vertex_data (extract_polygon_vertices cv ef mv st))" and p: "p \<in> set ps"
    for k ps p
  proof -
    have "(k, ps) \<in> set (extract_loop cv ef mv (airspace_polygons st) [])"
      using e by (simp add: extract_polygon_vertices_def)
    then obtain cs where "ps = polygons_loop cv ef mv 0 cs"
      using extract_loop_entries by fastforce
    then obtain j where "mv \<le> int (length (approx_polygon_of cv ef (cs ! j)))"
      and "p = polygon_data cv (0 + j) (cs ! j) (approx_polygon_of cv ef (cs ! j))"
      using p polygons_loop_member by blast
    then show ?thesis by simp
  qed
  then show ?thesis by blast
qed

theorem num_vertices_invariant_witness:
  "(''controlled_airspace'', [bump_polygon 2]) \<in>
     set (vertex_data (extract_polygon_vertices cv_spec default_epsilon_factor default_min_vertices
            (example_detector [(''controlled_airspace'', [sliver_contour, bump_contour])])))
   \<and> num_vertices (bump_polygon 2) = length (vertices (bump_polygon 2))
   \<and> default_min_vertices \<le> int (length (vertices (bump_polygon 2)))"
proof -
  let ?out = "vertex_data (extract_polygon_vertices cv_spec default_epsilon_factor
      default_min_vertices (example_detector [(''controlled_airspace'', [sliver_contour, bump_contour])]))"
  have m: "(''controlled_airspace'', [bump_polygon 2]) \<in> set ?out"
    by (simp add: extract_sliver_bump)
  show ?thesis
    using m num_vertices_invariant [of cv_spec default_epsilon_factor default_min_vertices
        "example_detector [(''controlled_airspace'', [sliver_contour, bump_contour])]"]
    by fastforce
qed

text \<open>
  C7. The centroid of the empty vertex list is \<open>(0, 0)\<close>; for a non-empty list it is the
  unweighted mean of the x-coordinates and of the y-coordinates (over the reals), it is what
  the polygon record stores for its vertex list, and it differs from the area-weighted
  centroid, for instance on the L-shaped hexagon.
\<close>

theorem centroid_is_vertex_mean:
  "calculate_centroid [] = (0, 0) \<and>
   (vs \<noteq> [] \<longrightarrow>
      calculate_centroid vs =
        ((\<Sum>j<length vs. real_of_int (fst (vs ! j))) / real (length vs),
         (\<Sum>j<length vs. real_of_int (snd (vs ! j))) / real (length vs))) \<and>
   centroid (polygon_data cv i c vs) = calculate_centroid vs \<and>
   calculate_centroid l_shape \<noteq> area_weighted_centroid l_shape"
proof -
  have "calculate_centroid l_shape = (5 / 3, 5 / 3)"
    by (simp add: calculate_centroid_def l_shape_def)
  moreover have "area_weighted_centroid l_shape = (19 / 14, 19 / 14)"
    by (simp add: area_weighted_centroid_def signed_area_def l_shape_def)
  ultimately have "calculate_centroid l_shape \<noteq> area_weighted_centroid l_shape" by simp
  then show ?thesis
    by (simp add: calculate_centroid_def sum_list_nth_real)
qed

theorem centroid_is_vertex_mean_witness:
  "l_shape \<noteq> [] \<and>
   calculate_centroid l_shape =
     ((\<Sum>j<length l_shape. real_of_int (fst (l_shape ! j))) / real (length l_shape),
      (\<Sum>j<length l_shape. real_of_int (snd (l_shape ! j))) / real (length l_shape)) \<and>
   calculate_centroid l_shape = (5 / 3, 5 / 3)"
proof -
  have n: "l_shape \<noteq> []" by (simp add: l_shape_def)
  have "calculate_centroid l_shape = (5 / 3, 5 / 3)"
    by (simp add: calculate_centroid_def l_shape_def)
  then show ?thesis
    using n centroid_is_vertex_mean [of l_shape] by simp
qed

text \<open>
  C8. In the collection built by vertex extraction a class whose stored contour list is
  empty is not a key at all, whereas a class with contours that all fail the
  \<open>min_vertices\<close> test is a key mapped to the empty polygon list.
\<close>

theorem no_detections_two_representations:
  assumes "distinct (map fst (airspace_polygons st))"
  shows "(map_of (airspace_polygons st) k = Some [] \<longrightarrow>
            k \<notin> fst ` set (vertex_data (extract_polygon_vertices cv ef mv st))) \<and>
         (\<forall>cs. map_of (airspace_polygons st) k = Some cs \<and> cs \<noteq> [] \<and>
               (\<forall>c\<in>set cs. int (length (approx_polygon_of cv ef c)) < mv) \<longrightarrow>
               map_of (vertex_data (extract_polygon_vertices cv ef mv st)) k = Some [])"
proof -
  let ?out = "vertex_data (extract_polygon_vertices cv ef mv st)"
  have "k \<notin> fst ` set ?out" if "map_of (airspace_polygons st) k = Some []"
  proof -
    have "map_of ?out k = None" using that assms by (simp add: extract_lookup)
    then show ?thesis by (simp add: map_of_eq_None_iff)
  qed
  moreover have "map_of ?out k = Some []"
    if "map_of (airspace_polygons st) k = Some cs" and "cs \<noteq> []"
      and "\<forall>c\<in>set cs. int (length (approx_polygon_of cv ef c)) < mv" for cs
    using that assms by (simp add: extract_lookup polygons_loop_all_fail)
  ultimately show ?thesis by blast
qed

theorem no_detections_two_representations_witness:
  "distinct (map fst (airspace_polygons
      (example_detector [(''restricted_airspace'', []), (''controlled_airspace'', [sliver_contour])]))) \<and>
   ''restricted_airspace'' \<notin> fst ` set (vertex_data
      (extract_polygon_vertices cv_spec default_epsilon_factor default_min_vertices
        (example_detector [(''restricted_airspace'', []), (''controlled_airspace'', [sliver_contour])]))) \<and>
   map_of (vertex_data
      (extract_polygon_vertices cv_spec default_epsilon_factor default_min_vertices
        (example_detector [(''restricted_airspace'', []), (''controlled_airspace'', [sliver_contour])])))
     ''controlled_airspace'' = Some []"
proof -
  let ?st = "example_detector
      [(''restricted_airspace'', []), (''controlled_airspace'', [sliver_contour])]"
  have d: "distinct (map fst (airspace_polygons ?st))"
    by (simp add: example_detector_def)
  have e: "map_of (airspace_polygons ?st) ''restricted_airspace'' = Some []"
    by (simp add: example_detector_def)
  have f: "map_of (airspace_polygons ?st) ''controlled_airspace'' = Some [sliver_contour]
      \<and> [sliver_contour] \<noteq> []
      \<and> (\<forall>c\<in>set [sliver_contour].
            int (length (approx_polygon_of cv_spec default_epsilon_factor c)) < default_min_vertices)"
    by (simp add: example_detector_def approx_sliver default_min_vertices_def)
  have "''restricted_airspace'' \<notin> fst ` set (vertex_data
      (extract_polygon_vertices cv_spec default_epsilon_factor default_min_vertices ?st))"
    using no_detections_two_representations [OF d, of "''restricted_airspace''" cv_spec
        default_epsilon_factor default_min_vertices] e by blast
  moreover have "map_of (vertex_data
      (extract_polygon_vertices cv_spec default_epsilon_factor default_min_vertices ?st))
     ''controlled_airspace'' = Some []"
    using no_detections_two_representations [OF d, of "''controlled_airspace''" cv_spec
        default_epsilon_factor default_min_vertices] f by blast
  ultimately show ?thesis using d by blast
qed

text \<open>
  C9. Within a class the ids of the polygons are exactly the 1-based positions of the
  contours that pass the \<open>min_vertices\<close> test, in increasing order: each polygon is the
  record built from the contour at position \<open>id\<close>, the ids are strictly increasing and
  hence distinct, and they need not be consecutive nor start at 1 (ids 2 and 4 for a
  class of four contours of which the first and third fail).
\<close>

theorem polygon_ids_are_contour_positions:
  assumes "distinct (map fst (airspace_polygons st))"
    and "map_of (airspace_polygons st) k = Some cs"
    and "map_of (vertex_data (extract_polygon_vertices cv ef mv st)) k = Some ps"
  shows "map id_field ps =
           map (\<lambda>j. j + 1)
             (filter (\<lambda>j. mv \<le> int (length (approx_polygon_of cv ef (cs ! j)))) [0..<length cs]) \<and>
         (\<forall>p\<in>set ps. 1 \<le> id_field p \<and> id_field p \<le> length cs \<and>
            p = polygon_data cv (id_field p - 1) (cs ! (id_field p - 1))
                  (approx_polygon_of cv ef (cs ! (id_field p - 1)))) \<and>
         sorted_wrt (<) (map id_field ps) \<and>
         distinct (map id_field ps) \<and>
         map id_field (polygons_loop cv_spec default_epsilon_factor default_min_vertices 0
            [sliver_contour, bump_contour, sliver_contour, bump_contour]) = [2, 4]"
proof -
  have ps: "ps = polygons_loop cv ef mv 0 cs"
    using assms by (simp add: extract_lookup split: if_splits)
  have a: "map id_field ps =
           map (\<lambda>j. j + 1)
             (filter (\<lambda>j. mv \<le> int (length (approx_polygon_of cv ef (cs ! j)))) [0..<length cs])"
    unfolding ps by (simp add: polygons_loop_ids)
  have b: "1 \<le> id_field p \<and> id_field p \<le> length cs \<and>
            p = polygon_data cv (id_field p - 1) (cs ! (id_field p - 1))
                  (approx_polygon_of cv ef (cs ! (id_field p - 1)))" if pm: "p \<in> set ps" for p
  proof -
    obtain j where "j < length cs"
        "p = polygon_data cv (0 + j) (cs ! j) (approx_polygon_of cv ef (cs ! j))"
      using pm ps polygons_loop_member by blast
    then show ?thesis by simp
  qed
  have c: "sorted_wrt (<) (map id_field ps)"
    unfolding ps by (rule polygons_loop_ids_increasing)
  then have d: "distinct (map id_field ps)"
    by (simp add: strict_sorted_iff)
  have e: "map id_field (polygons_loop cv_spec default_epsilon_factor default_min_vertices 0
            [sliver_contour, bump_contour, sliver_contour, bump_contour]) = [2, 4]"
    by (simp add: approx_sliver approx_bump default_min_vertices_def Let_def)
  show ?thesis using a b c d e by blast
qed

theorem polygon_ids_are_contour_positions_witness:
  "distinct (map fst (airspace_polygons (example_detector
      [(''controlled_airspace'', [sliver_contour, bump_contour, sliver_contour, bump_contour])]))) \<and>
   map_of (airspace_polygons (example_detector
      [(''controlled_airspace'', [sliver_contour, bump_contour, sliver_contour, bump_contour])]))
     ''controlled_airspace'' = Some [sliver_contour, bump_contour, sliver_contour, bump_contour] \<and>
   map_of (vertex_data (extract_polygon_vertices cv_spec default_epsilon_factor default_min_vertices
      (example_detector
        [(''controlled_airspace'', [sliver_contour, bump_contour, sliver_contour, bump_contour])])))
     ''controlled_airspace'' = Some [bump_polygon 2, bump_polygon 4] \<and>
   map id_field [bump_polygon 2, bump_polygon 4] = [2, 4] \<and>
   sorted_wrt (<) (map id_field [bump_polygon 2, bump_polygon 4])"
proof -
  let ?cs = "[sliver_contour, bump_contour, sliver_contour, bump_contour]"
  let ?st = "example_detector [(''controlled_airspace'', ?cs)]"
  have d: "distinct (map fst (airspace_polygons ?st))"
    by (simp add: example_detector_def)
  have c: "map_of (airspace_polygons ?st) ''controlled_airspace'' = Some ?cs"
    by (simp add: example_detector_def)
  have o: "map_of (vertex_data (extract_polygon_vertices cv_spec default_epsilon_factor
      default_min_vertices ?st)) ''controlled_airspace'' = Some [bump_polygon 2, bump_polygon 4]"
    by (simp add: extract_four)
  have i: "map id_field [bump_polygon 2, bump_polygon 4] = [2, 4]"
    by (simp add: bump_polygon_def)
  show ?thesis
    using d c o i polygon_ids_are_contour_positions [OF d c o] by blast
qed

text \<open>
  C10. Vertex extraction replaces only the polygon-record store: the loaded image, the
  image path and the per-class contour store are unchanged, and a second extraction
  (with any parameters) gives the same result as running it on the original state.
\<close>

theorem extract_frame:
  "original_image (extract_polygon_vertices cv ef mv st) = original_image st \<and>
   airspace_polygons (extract_polygon_vertices cv ef mv st) = airspace_polygons st \<and>
   image_path (extract_polygon_vertices cv ef mv st) = image_path st \<and>
   extract_polygon_vertices cv' ef' mv' (extract_polygon_vertices cv ef mv st) =
     extract_polygon_vertices cv' ef' mv' st"
  by (simp add: extract_polygon_vertices_def)

end
